theory Spec2Isabelle
  imports Complex_Main "HOL-Library.AList"
begin

section \<open>JavaScript numbers\<close>

text \<open>
  Finite doubles are idealised as exact rationals; the three non-finite doubles are kept
  apart, because a division by a zero split count produces one of them.
\<close>

datatype jsnum = Num rat | PosInfinity | NegInfinity | NaN

fun js_neg :: "jsnum \<Rightarrow> jsnum" where
  "js_neg (Num a) = Num (- a)"
| "js_neg PosInfinity = NegInfinity"
| "js_neg NegInfinity = PosInfinity"
| "js_neg NaN = NaN"

fun js_add :: "jsnum \<Rightarrow> jsnum \<Rightarrow> jsnum" where
  "js_add (Num a) (Num b) = Num (a + b)"
| "js_add NaN _ = NaN"
| "js_add _ NaN = NaN"
| "js_add PosInfinity NegInfinity = NaN"
| "js_add NegInfinity PosInfinity = NaN"
| "js_add PosInfinity _ = PosInfinity"
| "js_add _ PosInfinity = PosInfinity"
| "js_add NegInfinity _ = NegInfinity"
| "js_add _ NegInfinity = NegInfinity"

definition js_sub :: "jsnum \<Rightarrow> jsnum \<Rightarrow> jsnum" where
  "js_sub a b = js_add a (js_neg b)"

text \<open>\<^verbatim>\<open>amount / count\<close> for a finite amount and an array length.\<close>

definition js_div :: "rat \<Rightarrow> nat \<Rightarrow> jsnum" where
  "js_div a n =
     (if n = 0 then (if 0 < a then PosInfinity else if a < 0 then NegInfinity else NaN)
      else Num (a / of_nat n))"

text \<open>\<^verbatim>\<open>x || 0\<close> for a property read: \<^verbatim>\<open>undefined\<close>, \<^verbatim>\<open>NaN\<close> and \<^verbatim>\<open>0\<close> are falsy.\<close>

fun or_zero :: "jsnum option \<Rightarrow> jsnum" where
  "or_zero None = Num 0"
| "or_zero (Some NaN) = Num 0"
| "or_zero (Some v) = v"

fun is_finite :: "jsnum \<Rightarrow> bool" where
  "is_finite (Num _) = True"
| "is_finite _ = False"

section \<open>Data model\<close>

text \<open>
  A plain object keyed by member names is an association list in insertion order with
  distinct keys: \<open>map_of\<close> reads a property, \<open>AList.update\<close> assigns one (in place
  when the key exists, appended otherwise).  Member names are taken not to collide with
  the properties every object inherits (such as \<^verbatim>\<open>constructor\<close>) and not to be array
  indices, which an object enumerates first.  An expense is a stored record: its amount
  is a finite number and its \<^verbatim>\<open>customAmounts\<close> a map or \<^verbatim>\<open>null\<close>.
\<close>

type_synonym balances = "(string \<times> jsnum) list"

record expense =
  amount :: rat
  paidBy :: string
  splitAmong :: "string list"
  splitMethod :: string
  customAmounts :: "(string \<times> rat) list option"

section \<open>Balance calculator of the analytics router\<close>

text \<open>
  \<^verbatim>\<open>calculateBalances\<close> of the analytics routes (\<^verbatim>\<open>src/unnamed/part_000\<close>): every
  update of the map is guarded by \<^verbatim>\<open>hasOwnProperty\<close>.
\<close>

text \<open>\<^verbatim>\<open>if (balances.hasOwnProperty(member)) balances[member] -= x\<close>\<close>

definition subtract_own :: "balances \<Rightarrow> string \<Rightarrow> jsnum \<Rightarrow> balances" where
  "subtract_own b member x =
     (case map_of b member of
        Some v \<Rightarrow> AList.update member (js_sub v x) b
      | None \<Rightarrow> b)"

text \<open>\<^verbatim>\<open>if (balances.hasOwnProperty(k)) balances[k] += x\<close>\<close>

definition add_own :: "balances \<Rightarrow> string \<Rightarrow> jsnum \<Rightarrow> balances" where
  "add_own b k x =
     (case map_of b k of
        Some v \<Rightarrow> AList.update k (js_add v x) b
      | None \<Rightarrow> b)"


text \<open>\<^verbatim>\<open>expense.amount / expense.splitAmong.length\<close>, the quotient of the equal split.\<close>

definition sharePerPerson :: "'a expense_scheme \<Rightarrow> jsnum" where
  "sharePerPerson e = js_div (amount e) (length (splitAmong e))"

text \<open>The body of \<^verbatim>\<open>expenses.forEach\<close> in \<^verbatim>\<open>calculateBalances\<close>.\<close>

definition balance_expense :: "balances \<Rightarrow> 'a expense_scheme \<Rightarrow> balances" where
  "balance_expense b e =
     (let b1 =
        (case (if splitMethod e = ''custom'' then customAmounts e else None) of
           Some ca \<Rightarrow> foldl (\<lambda>b (member, amt). subtract_own b member (Num amt)) b ca
         | None \<Rightarrow>
             foldl (\<lambda>b member. subtract_own b member (sharePerPerson e)) b (splitAmong e))
      in add_own b1 (paidBy e) (Num (amount e)))"


section \<open>Balance calculator of the server's group analytics\<close>

text \<open>
  The balances part of \<^verbatim>\<open>calculateGroupAnalytics\<close> of the server file
  (\<^verbatim>\<open>src/unnamed/part_002\<close>): a missing key counts as 0 and is created.  Its quotient of
  the equal split, \<^verbatim>\<open>splitAmount\<close>, is the same expression as \<open>sharePerPerson\<close>.
\<close>

text \<open>\<^verbatim>\<open>balances[k] = (balances[k] || 0) + x\<close> and \<^verbatim>\<open>balances[k] = (balances[k] || 0) - x\<close>\<close>

definition add_default :: "balances \<Rightarrow> string \<Rightarrow> jsnum \<Rightarrow> balances" where
  "add_default b k x = AList.update k (js_add (or_zero (map_of b k)) x) b"

definition subtract_default :: "balances \<Rightarrow> string \<Rightarrow> jsnum \<Rightarrow> balances" where
  "subtract_default b k x = AList.update k (js_sub (or_zero (map_of b k)) x) b"

text \<open>\<^verbatim>\<open>expense.customAmounts.get(member) || 0\<close>\<close>

definition custom_share :: "(string \<times> rat) list \<Rightarrow> string \<Rightarrow> rat" where
  "custom_share ca member = (case map_of ca member of Some a \<Rightarrow> a | None \<Rightarrow> 0)"

text \<open>The body of \<^verbatim>\<open>expenses.forEach\<close> in \<^verbatim>\<open>calculateGroupAnalytics\<close>.\<close>

definition analytics_expense :: "balances \<Rightarrow> 'a expense_scheme \<Rightarrow> balances" where
  "analytics_expense b e =
     (let b1 = add_default b (paidBy e) (Num (amount e))
      in case (if splitMethod e = ''custom'' then customAmounts e else None) of
           Some ca \<Rightarrow>
             foldl (\<lambda>b member. subtract_default b member (Num (custom_share ca member)))
               b1 (splitAmong e)
         | None \<Rightarrow>
             foldl (\<lambda>b member. subtract_default b member (sharePerPerson e)) b1 (splitAmong e))"


section \<open>Settlement planners\<close>

text \<open>
  Both files define a \<^verbatim>\<open>calculateSettlements\<close>: the server file
  (\<^verbatim>\<open>src/unnamed/part_002\<close>) with two cursors, the analytics routes
  (\<^verbatim>\<open>src/unnamed/part_000\<close>) with nested loops.  The planners compare balances with
  the tolerance 0.01 and subtract them; they are modelled on finite balances (every value
  the balance calculators return is finite), in the enumeration order of the object's
  keys.
\<close>

type_synonym ledger = "(string \<times> rat) list"

record settlement =
  s_from :: string
  s_to :: string
  s_amount :: rat

subsection \<open>The server's planner: two cursors over debtors and creditors\<close>

record party =
  person :: string
  party_amount :: rat

text \<open>The body of \<^verbatim>\<open>Object.entries(balances).forEach\<close>.\<close>

definition classify :: "party list \<times> party list \<Rightarrow> string \<times> rat \<Rightarrow> party list \<times> party list" where
  "classify dc entry =
     (let (debtors, creditors) = dc; (p, balance) = entry
      in if balance < - (1 / 100)
           then (debtors @ [\<lparr>person = p, party_amount = - balance\<rparr>], creditors)
         else if balance > 1 / 100
           then (debtors, creditors @ [\<lparr>person = p, party_amount = balance\<rparr>])
         else dc)"

text \<open>
  The state of the \<^verbatim>\<open>while\<close> loop: the two arrays, the two cursors and the
  settlements pushed so far.  \<open>settle_step\<close> is the loop body; the arrays are updated
  in place at the cursors.
\<close>

type_synonym loop_state = "party list \<times> party list \<times> nat \<times> nat \<times> settlement list"

definition settle_step :: "loop_state \<Rightarrow> loop_state" where
  "settle_step st =
     (let (debtors, creditors, i, j, settlements) = st;
          amt = min (party_amount (debtors ! i)) (party_amount (creditors ! j));
          settlements' = settlements @
            [\<lparr>s_from = person (debtors ! i), s_to = person (creditors ! j), s_amount = amt\<rparr>];
          debtors' = debtors[i := (debtors ! i)\<lparr>party_amount := party_amount (debtors ! i) - amt\<rparr>];
          creditors' = creditors[j := (creditors ! j)\<lparr>party_amount := party_amount (creditors ! j) - amt\<rparr>];
          i' = (if party_amount (debtors' ! i) < 1 / 100 then i + 1 else i);
          j' = (if party_amount (creditors' ! j) < 1 / 100 then j + 1 else j)
      in (debtors', creditors', i', j', settlements'))"

text \<open>\<^verbatim>\<open>i < debtors.length && j < creditors.length\<close>\<close>

fun in_range :: "loop_state \<Rightarrow> bool" where
  "in_range (debtors, creditors, i, j, settlements) = (i < length debtors \<and> j < length creditors)"

function settle_loop :: "loop_state \<Rightarrow> loop_state" where
  "settle_loop st = (if in_range st then settle_loop (settle_step st) else st)"
  by pat_completeness auto
termination
  by (relation "measure (\<lambda>(debtors, creditors, i, j, settlements).
        (length debtors - i) + (length creditors - j))")
     (auto simp: settle_step_def Let_def min_def split: if_splits)

declare settle_loop.simps [simp del]

definition calculateSettlements_server :: "ledger \<Rightarrow> settlement list" where
  "calculateSettlements_server balances =
     (let (debtors, creditors) = foldl classify ([], []) balances;
          (debtors', creditors', i, j, settlements) = settle_loop (debtors, creditors, 0, 0, [])
      in settlements)"

subsection \<open>The analytics router's planner: nested loops over pairs of members\<close>

text \<open>\<^verbatim>\<open>obj[k] += d\<close> on an object that has the key.\<close>

definition adjust :: "string \<Rightarrow> rat \<Rightarrow> ledger \<Rightarrow> ledger" where
  "adjust k d b = (case map_of b k of Some v \<Rightarrow> AList.update k (v + d) b | None \<Rightarrow> b)"

text \<open>
  The body of the inner loop, on the state \<^verbatim>\<open>(balanceCopy, settlements)\<close>.  Both names
  are keys of \<^verbatim>\<open>balanceCopy\<close>, since \<^verbatim>\<open>members\<close> is \<^verbatim>\<open>Object.keys(balances)\<close>.
\<close>

definition settle_pair ::
  "string list \<Rightarrow> nat \<Rightarrow> ledger \<times> settlement list \<Rightarrow> nat \<Rightarrow> ledger \<times> settlement list" where
  "settle_pair members i st j =
     (let (balanceCopy, settlements) = st;
          member1 = members ! i;
          member2 = members ! j
      in case (map_of balanceCopy member1, map_of balanceCopy member2) of
           (Some balance1, Some balance2) \<Rightarrow>
             if balance1 > 1 / 100 \<and> balance2 < - (1 / 100) then
               (let amt = min balance1 (- balance2)
                in (adjust member2 amt (adjust member1 (- amt) balanceCopy),
                    settlements @ [\<lparr>s_from = member2, s_to = member1, s_amount = amt\<rparr>]))
             else st
         | _ \<Rightarrow> st)"

definition settle_all :: "ledger \<Rightarrow> ledger \<times> settlement list" where
  "settle_all balances =
     (let members = map fst balances;
          n = length members
      in foldl (\<lambda>st i. foldl (settle_pair members i) st [i + 1 ..< n]) (balances, []) [0 ..< n])"

definition calculateSettlements_router :: "ledger \<Rightarrow> settlement list" where
  "calculateSettlements_router balances = snd (settle_all balances)"

text \<open>
  Applying a settlement list to a balance map: the payer's negative balance rises by
  the amount, the receiver's positive balance falls by it, as the router's planner does
  on its copy (\<^verbatim>\<open>balanceCopy[member1] -= amount; balanceCopy[member2] += amount\<close> with
  \<^verbatim>\<open>to: member1\<close> and \<^verbatim>\<open>from: member2\<close>).
\<close>

definition apply_settlement :: "ledger \<Rightarrow> settlement \<Rightarrow> ledger" where
  "apply_settlement b s = adjust (s_to s) (- s_amount s) (adjust (s_from s) (s_amount s) b)"

definition apply_settlements :: "ledger \<Rightarrow> settlement list \<Rightarrow> ledger" where
  "apply_settlements b ss = foldl apply_settlement b ss"

text \<open>The reading with the signs the other way round: subtract from the payer, add to the receiver.\<close>

definition apply_settlement_subtract_from :: "ledger \<Rightarrow> settlement \<Rightarrow> ledger" where
  "apply_settlement_subtract_from b s =
     adjust (s_to s) (s_amount s) (adjust (s_from s) (- s_amount s) b)"

definition apply_settlements_subtract_from :: "ledger \<Rightarrow> settlement list \<Rightarrow> ledger" where
  "apply_settlements_subtract_from b ss = foldl apply_settlement_subtract_from b ss"

section \<open>The expense-creation endpoint of the expenses router\<close>












section \<open>The planners on a store of objects\<close>

text \<open>
  A cell of the store holds an object whose properties are numbers (a balance map or its
  copy) or an array of \<^verbatim>\<open>{person, amount}\<close> objects, which are reachable through their
  array only.  \<open>alloc\<close> is an object or array literal: it takes the next unused
  reference.  A planner is called with the reference of the caller's balance map and
  returns its settlements with the store it leaves behind.
\<close>

type_synonym ref = nat

datatype cell = Ledger ledger | Parties "party list"

record store =
  cells :: "ref \<Rightarrow> cell option"
  fresh :: ref

definition alloc :: "store \<Rightarrow> cell \<Rightarrow> ref \<times> store" where
  "alloc s c = (fresh s, s\<lparr>cells := (cells s)(fresh s \<mapsto> c), fresh := Suc (fresh s)\<rparr>)"

definition put :: "store \<Rightarrow> ref \<Rightarrow> cell \<Rightarrow> store" where
  "put s r c = s\<lparr>cells := (cells s)(r \<mapsto> c)\<rparr>"

text \<open>
  The router's planner on the store.  \<^verbatim>\<open>{ ...balances }\<close> allocates the copy; the body
  of the inner loop reads and assigns the properties of the object \<^verbatim>\<open>balanceCopy\<close>
  refers to.
\<close>

definition settle_pair_store ::
  "string list \<Rightarrow> ref \<Rightarrow> nat \<Rightarrow> store \<times> settlement list \<Rightarrow> nat \<Rightarrow> store \<times> settlement list" where
  "settle_pair_store members balanceCopy i st j =
     (let (s, settlements) = st
      in case cells s balanceCopy of
           Some (Ledger bc) \<Rightarrow>
             (let (bc', settlements') = settle_pair members i (bc, settlements) j
              in (put s balanceCopy (Ledger bc'), settlements'))
         | _ \<Rightarrow> st)"

definition calculateSettlements_router_store :: "store \<Rightarrow> ref \<Rightarrow> settlement list \<times> store" where
  "calculateSettlements_router_store s balances =
     (case cells s balances of
        Some (Ledger obj) \<Rightarrow>
          (let members = map fst obj;
               (balanceCopy, s1) = alloc s (Ledger obj);
               n = length members;
               (s2, settlements) =
                 foldl (\<lambda>st i. foldl (settle_pair_store members balanceCopy i) st [i + 1 ..< n])
                   (s1, []) [0 ..< n]
           in (settlements, s2))
      | _ \<Rightarrow> ([], s))"

text \<open>
  The server's planner on the store.  \<^verbatim>\<open>debtors\<close> and \<^verbatim>\<open>creditors\<close> are two new
  arrays; \<^verbatim>\<open>push\<close> and the loop's assignments to \<^verbatim>\<open>debtors[i].amount\<close> and
  \<^verbatim>\<open>creditors[j].amount\<close> write them.
\<close>

definition push_party :: "store \<Rightarrow> ref \<Rightarrow> party \<Rightarrow> store" where
  "push_party s arr p =
     (case cells s arr of Some (Parties ps) \<Rightarrow> put s arr (Parties (ps @ [p])) | _ \<Rightarrow> s)"

definition classify_store :: "ref \<Rightarrow> ref \<Rightarrow> store \<Rightarrow> string \<times> rat \<Rightarrow> store" where
  "classify_store debtors creditors s entry =
     (let (p, balance) = entry
      in if balance < - (1 / 100) then push_party s debtors \<lparr>person = p, party_amount = - balance\<rparr>
         else if balance > 1 / 100 then push_party s creditors \<lparr>person = p, party_amount = balance\<rparr>
         else s)"

definition calculateSettlements_server_store :: "store \<Rightarrow> ref \<Rightarrow> settlement list \<times> store" where
  "calculateSettlements_server_store s balances =
     (case cells s balances of
        Some (Ledger obj) \<Rightarrow>
          (let (debtors, s1) = alloc s (Parties []);
               (creditors, s2) = alloc s1 (Parties []);
               s3 = foldl (classify_store debtors creditors) s2 obj
           in case (cells s3 debtors, cells s3 creditors) of
                (Some (Parties ds), Some (Parties cs)) \<Rightarrow>
                  (let (ds', cs', i, j, settlements) = settle_loop (ds, cs, 0, 0, [])
                   in (settlements, put (put s3 debtors (Parties ds')) creditors (Parties cs')))
              | _ \<Rightarrow> ([], s3))
      | _ \<Rightarrow> ([], s))"

section \<open>Notions used in the statements\<close>

text \<open>
  The debtors and the creditors of a balance map, as the server's planner collects them:
  the members below \<open>- 0.01\<close> with the amount they owe, and the members above \<open>0.01\<close>
  with the amount they are owed; and how many there are of each.
\<close>

definition debtors_of :: "ledger \<Rightarrow> party list" where
  "debtors_of b =
     map (\<lambda>(p, v). \<lparr>person = p, party_amount = - v\<rparr>) (filter (\<lambda>(p, v). v < - (1 / 100)) b)"

definition creditors_of :: "ledger \<Rightarrow> party list" where
  "creditors_of b =
     map (\<lambda>(p, v). \<lparr>person = p, party_amount = v\<rparr>) (filter (\<lambda>(p, v). v > 1 / 100) b)"



text \<open>
  A balance map is well formed when its keys are distinct and its values finite.
  \<open>sum_values\<close> is \<^verbatim>\<open>Object.values(b).reduce((s, v) => s + v, 0)\<close>; \<open>total\<close> is the same
  sum over the rationals, and \<open>balance_at\<close> the balance of a member, 0 when the key is
  absent.
\<close>

fun num_of :: "jsnum \<Rightarrow> rat" where
  "num_of (Num r) = r"
| "num_of _ = 0"

definition all_finite :: "balances \<Rightarrow> bool" where
  "all_finite b = list_all (\<lambda>(k, v). is_finite v) b"

definition well_formed :: "balances \<Rightarrow> bool" where
  "well_formed b = (distinct (map fst b) \<and> all_finite b)"



definition balance_at :: "balances \<Rightarrow> string \<Rightarrow> rat" where
  "balance_at b k = (case map_of b k of Some v \<Rightarrow> num_of v | None \<Rightarrow> 0)"






text \<open>The balance map after the settlements of the server's planner have been applied to it.\<close>

definition settled_server :: "ledger \<Rightarrow> ledger" where
  "settled_server b = apply_settlements b (calculateSettlements_server b)"

text \<open>Every object that existed in \<open>s\<close> is the same in \<open>s'\<close>.\<close>

definition kept :: "store \<Rightarrow> store \<Rightarrow> bool" where
  "kept s s' = (fresh s \<le> fresh s' \<and> (\<forall>r < fresh s. cells s' r = cells s r))"

section \<open>Loop invariants\<close>

text \<open>
  Of the server's planner: the persons in the two arrays never change and every
  settlement runs from a debtor to a creditor; the number of settlements is bounded by
  the progress of the cursors.
\<close>

definition persons_inv :: "string list \<Rightarrow> string list \<Rightarrow> loop_state \<Rightarrow> bool" where
  "persons_inv dn cn st =
     (case st of (ds, cs, i, j, ss) \<Rightarrow>
        map person ds = dn \<and> map person cs = cn \<and>
        (\<forall>s \<in> set ss. s_from s \<in> set dn \<and> s_to s \<in> set cn))"


text \<open>
  Of the server's planner, tying the two arrays to the balance map with the settlements
  pushed so far applied: entry \<open>k\<close> of an array holds what its person still owes or is
  owed, the entries before a cursor are below 0.01, and nobody else has been touched.
\<close>

definition ledger_inv :: "ledger \<Rightarrow> loop_state \<Rightarrow> bool" where
  "ledger_inv b st =
     (case st of (ds, cs, i, j, ss) \<Rightarrow>
        i \<le> length ds \<and> j \<le> length cs \<and>
        length ds = length (debtors_of b) \<and> length cs = length (creditors_of b) \<and>
        (\<forall>k < length ds.
           person (ds ! k) = person (debtors_of b ! k) \<and>
           0 \<le> party_amount (ds ! k) \<and>
           party_amount (ds ! k) \<le> party_amount (debtors_of b ! k) \<and>
           map_of (apply_settlements b ss) (person (ds ! k)) = Some (- party_amount (ds ! k)) \<and>
           (k < i \<longrightarrow> party_amount (ds ! k) < 1 / 100)) \<and>
        (\<forall>k < length cs.
           person (cs ! k) = person (creditors_of b ! k) \<and>
           0 \<le> party_amount (cs ! k) \<and>
           party_amount (cs ! k) \<le> party_amount (creditors_of b ! k) \<and>
           map_of (apply_settlements b ss) (person (cs ! k)) = Some (party_amount (cs ! k)) \<and>
           (k < j \<longrightarrow> party_amount (cs ! k) < 1 / 100)) \<and>
        (\<forall>m. m \<notin> person ` set (debtors_of b) \<and> m \<notin> person ` set (creditors_of b) \<longrightarrow>
           map_of (apply_settlements b ss) m = map_of b m))"

text \<open>
  Of the router's planner: a member in the dead zone keeps its balance and is in no
  settlement; every settlement takes a member out of the debtors or the creditors.
\<close>

definition dead_inv :: "string \<Rightarrow> rat \<Rightarrow> ledger \<times> settlement list \<Rightarrow> bool" where
  "dead_inv m v st =
     (case st of (bc, ss) \<Rightarrow>
        map_of bc m = Some v \<and> (\<forall>s \<in> set ss. s_from s \<noteq> m \<and> s_to s \<noteq> m))"


text \<open>The relations between a run on values and the run on the store.\<close>

definition router_sim :: "ref \<Rightarrow> store \<Rightarrow> ledger \<times> settlement list \<Rightarrow> store \<times> settlement list \<Rightarrow> bool" where
  "router_sim r s0 pure st =
     (case (pure, st) of ((bc, ss), (s, ss')) \<Rightarrow>
        ss' = ss \<and> cells s r = Some (Ledger bc) \<and> kept s0 s)"

definition server_sim :: "ref \<Rightarrow> ref \<Rightarrow> store \<Rightarrow> party list \<times> party list \<Rightarrow> store \<Rightarrow> bool" where
  "server_sim d c s0 pure s =
     (case pure of (ds, cs) \<Rightarrow>
        cells s d = Some (Parties ds) \<and> cells s c = Some (Parties cs) \<and> kept s0 s)"

section \<open>Worked inputs\<close>











definition trip_ledger :: ledger where
  "trip_ledger = [(''A'', 60), (''B'', - 30), (''C'', - 30)]"

definition cents_ledger :: ledger where
  "cents_ledger = [(''A'', 2 / 100), (''B'', - (1 / 100)), (''C'', - (1 / 100))]"

definition one_ledger_store :: store where
  "one_ledger_store = \<lparr>cells = (\<lambda>r. None)(0 \<mapsto> Ledger [(''A'', 60), (''B'', - 30), (''C'', - 30)]), fresh = 1\<rparr>"

section \<open>Reading the balance maps\<close>



lemma map_of_subtract_own:
  "map_of (subtract_own b m x) k =
     (if k = m then map_option (\<lambda>v. js_sub v x) (map_of b m) else map_of b k)"
  by (auto simp: subtract_own_def update_conv' split: option.splits)


lemma map_of_add_default:
  "map_of (add_default b m x) k =
     (if k = m then Some (js_add (or_zero (map_of b m)) x) else map_of b k)"
  by (auto simp: add_default_def update_conv')

lemma map_of_subtract_default:
  "map_of (subtract_default b m x) k =
     (if k = m then Some (js_sub (or_zero (map_of b m)) x) else map_of b k)"
  by (auto simp: subtract_default_def update_conv')



section \<open>Equal split of a single expense\<close>



section \<open>The server's planner\<close>

lemma settle_loop_rule:
  assumes "P st" and "\<And>st. P st \<Longrightarrow> in_range st \<Longrightarrow> P (settle_step st)"
  shows "P (settle_loop st) \<and> \<not> in_range (settle_loop st)"
  using assms(1)
proof (induction st rule: settle_loop.induct)
  case (1 st)
  show ?case
  proof (cases "in_range st")
    case True
    then have "P (settle_step st)" using assms(2) "1.prems" by blast
    with "1.IH" True show ?thesis by (simp add: settle_loop.simps [of st])
  next
    case False
    with "1.prems" show ?thesis by (simp add: settle_loop.simps [of st])
  qed
qed

lemma foldl_classify:
  "foldl classify (ds, cs) b = (ds @ debtors_of b, cs @ creditors_of b)"
  by (induction b arbitrary: ds cs) (auto simp: classify_def debtors_of_def creditors_of_def)

lemma calculateSettlements_server_eq:
  "calculateSettlements_server b =
     snd (snd (snd (snd (settle_loop (debtors_of b, creditors_of b, 0, 0, [])))))"
  by (simp add: calculateSettlements_server_def foldl_classify split: prod.splits)

lemma map_person_update [simp]:
  "map person (ds[i := (ds ! i)\<lparr>party_amount := x\<rparr>]) = map person ds"
  by (cases "i < length ds") (simp_all add: map_update list_eq_iff_nth_eq nth_list_update)

lemma persons_inv_step:
  "persons_inv dn cn st \<Longrightarrow> in_range st \<Longrightarrow> persons_inv dn cn (settle_step st)"
  apply (cases st)
  apply (auto simp: persons_inv_def settle_step_def Let_def)
  done

lemma server_parties:
  assumes "s \<in> set (calculateSettlements_server b)"
  shows "s_from s \<in> person ` set (debtors_of b) \<and> s_to s \<in> person ` set (creditors_of b)"
proof -
  let ?st = "(debtors_of b, creditors_of b, 0::nat, 0::nat, [] :: settlement list)"
  have "persons_inv (map person (debtors_of b)) (map person (creditors_of b)) ?st"
    by (simp add: persons_inv_def)
  then have "persons_inv (map person (debtors_of b)) (map person (creditors_of b)) (settle_loop ?st)"
    using settle_loop_rule [of "persons_inv (map person (debtors_of b)) (map person (creditors_of b))" ?st]
      persons_inv_step by blast
  with assms show ?thesis
    by (cases "settle_loop ?st") (auto simp: persons_inv_def calculateSettlements_server_eq)
qed



section \<open>The router's planner\<close>

lemma foldl_invariant:
  "P s \<Longrightarrow> (\<And>s x. P s \<Longrightarrow> x \<in> set xs \<Longrightarrow> P (f s x)) \<Longrightarrow> P (foldl f s xs)"
  by (induction xs arbitrary: s) auto

lemma settle_all_invariant:
  assumes "P (b, [])" and "\<And>st i j. P st \<Longrightarrow> P (settle_pair (map fst b) i st j)"
  shows "P (settle_all b)"
proof -
  have inner: "P (foldl (settle_pair (map fst b) i) st js)" if "P st" for st i js
    by (rule foldl_invariant [where P = P, OF that]) (rule assms(2))
  show ?thesis
    unfolding settle_all_def Let_def
    by (rule foldl_invariant [where P = P, OF assms(1)]) (rule inner)
qed

lemma map_of_adjust:
  "map_of (adjust k d b) m = (if m = k then map_option (\<lambda>v. v + d) (map_of b k) else map_of b m)"
  by (auto simp: adjust_def update_conv' split: option.splits)

lemma keys_adjust [simp]: "map fst (adjust k d b) = map fst b"
  by (auto simp: adjust_def update_keys map_of_eq_None_iff split: option.splits)

lemma dead_inv_pair:
  "- (1 / 100) \<le> v \<Longrightarrow> v \<le> 1 / 100 \<Longrightarrow> dead_inv m v st \<Longrightarrow> dead_inv m v (settle_pair ms i st j)"
  apply (cases st)
  apply (auto simp: dead_inv_def settle_pair_def Let_def map_of_adjust split: option.splits)
  done

lemma router_dead_zone:
  assumes "map_of b m = Some v" and "- (1 / 100) \<le> v" and "v \<le> 1 / 100"
    and "s \<in> set (calculateSettlements_router b)"
  shows "s_from s \<noteq> m \<and> s_to s \<noteq> m"
proof -
  have "dead_inv m v (settle_all b)"
  proof (rule settle_all_invariant)
    show "dead_inv m v (b, [])" by (simp add: dead_inv_def assms)
  qed (rule dead_inv_pair [OF assms(2,3)])
  with assms(4) show ?thesis
    by (cases "settle_all b") (auto simp: dead_inv_def calculateSettlements_router_def)
qed










section \<open>Worked ledgers\<close>

lemma server_example:
  "calculateSettlements_server [(''A'', 60), (''B'', - 30), (''C'', 1 / 200), (''D'', - 30)] = 
    [\<lparr>s_from = ''B'', s_to = ''A'', s_amount = 30\<rparr>, \<lparr>s_from = ''D'', s_to = ''A'', s_amount = 30\<rparr>]"
  by (simp add: calculateSettlements_server_def classify_def settle_loop.simps settle_step_def Let_def)

lemma router_example:
  "calculateSettlements_router [(''A'', 60), (''B'', - 30), (''C'', 1 / 200), (''D'', - 30)] = 
    [\<lparr>s_from = ''B'', s_to = ''A'', s_amount = 30\<rparr>, \<lparr>s_from = ''D'', s_to = ''A'', s_amount = 30\<rparr>]"
  by (simp add: calculateSettlements_router_def settle_all_def settle_pair_def Let_def adjust_def upt_rec)

text \<open>
  The router's planner settles a creditor with the debtors listed after it only: its
  test has no branch for a debtor that comes first.  For two members it returns the
  transfer when the creditor is listed first and nothing when the debtor is, whereas the
  server's planner returns the transfer in either order.
\<close>

lemma router_skips_earlier_debtor:
  assumes "d \<noteq> c" and "x < - (1 / 100)" and "1 / 100 < y"
  shows "calculateSettlements_router [(d, x), (c, y)] = []
       \<and> calculateSettlements_router [(c, y), (d, x)]
           = [\<lparr>s_from = d, s_to = c, s_amount = min y (- x)\<rparr>]
       \<and> calculateSettlements_server [(d, x), (c, y)]
           = [\<lparr>s_from = d, s_to = c, s_amount = min (- x) y\<rparr>]"
proof -
  have 1: "calculateSettlements_router [(d, x), (c, y)] = []"
    using assms by (simp add: calculateSettlements_router_def settle_all_def settle_pair_def Let_def upt_rec)
  have 2: "calculateSettlements_router [(c, y), (d, x)] = [\<lparr>s_from = d, s_to = c, s_amount = min y (- x)\<rparr>]"
    using assms by (simp add: calculateSettlements_router_def settle_all_def settle_pair_def Let_def upt_rec)
  have 3: "calculateSettlements_server [(d, x), (c, y)] = [\<lparr>s_from = d, s_to = c, s_amount = min (- x) y\<rparr>]"
    using assms
    by (simp add: calculateSettlements_server_def classify_def Let_def settle_step_def
        settle_loop.simps [of "([\<lparr>person = d, party_amount = - x\<rparr>], [\<lparr>person = c, party_amount = y\<rparr>], 0, 0, [])"]
        settle_loop.simps [of "(_, _, Suc 0, _, _)"] settle_loop.simps [of "(_, _, 0, Suc 0, _)"])
  from 1 2 3 show ?thesis by blast
qed

section \<open>Number of transfers\<close>



section \<open>The dead zone\<close>

text \<open>
  C8.  A member whose balance lies in \<open>[- 0.01, 0.01]\<close> is neither the payer nor the
  receiver of any settlement, for both planners.
\<close>

theorem dead_zone_never_settles:
  assumes "distinct (map fst balances)" and "map_of balances m = Some v"
    and "- (1 / 100) \<le> v" and "v \<le> 1 / 100"
  shows "(\<forall>s \<in> set (calculateSettlements_server balances). s_from s \<noteq> m \<and> s_to s \<noteq> m)
       \<and> (\<forall>s \<in> set (calculateSettlements_router balances). s_from s \<noteq> m \<and> s_to s \<noteq> m)"
proof -
  have u: "v' = v" if "(m, v') \<in> set balances" for v'
    using that assms(1,2) by (simp add: map_of_is_SomeI)
  have "m \<notin> person ` set (debtors_of balances)" "m \<notin> person ` set (creditors_of balances)"
    using assms(3,4) by (auto simp: debtors_of_def creditors_of_def dest!: u)
  then have "\<forall>s \<in> set (calculateSettlements_server balances). s_from s \<noteq> m \<and> s_to s \<noteq> m"
    using server_parties [of _ balances] by blast
  moreover have "\<forall>s \<in> set (calculateSettlements_router balances). s_from s \<noteq> m \<and> s_to s \<noteq> m"
    using router_dead_zone [OF assms(2,3,4)] by blast
  ultimately show ?thesis by blast
qed

theorem dead_zone_never_settles_witness:
  "''C'' \<notin> s_from ` set (calculateSettlements_server
       [(''A'', 60), (''B'', - 30), (''C'', 1 / 200), (''D'', - 30)])
   \<and> ''C'' \<notin> s_to ` set (calculateSettlements_router
       [(''A'', 60), (''B'', - 30), (''C'', 1 / 200), (''D'', - 30)])"
proof -
  have d: "distinct (map fst [(''A'', 60::rat), (''B'', - 30), (''C'', 1 / 200), (''D'', - 30)])"
    by simp
  have m: "map_of [(''A'', 60::rat), (''B'', - 30), (''C'', 1 / 200), (''D'', - 30)] ''C'' = Some (1 / 200)"
    by simp
  from dead_zone_never_settles [OF d m] show ?thesis by fastforce
qed

section \<open>Finite, well-formed balance maps and their totals\<close>

lemma is_finite_iff: "is_finite v \<longleftrightarrow> (\<exists>r. v = Num r)"
  by (cases v) auto

lemma all_finite_update:
  "all_finite b \<Longrightarrow> is_finite v \<Longrightarrow> all_finite (AList.update k v b)"
  by (induction b) (auto simp: all_finite_def)

lemma all_finite_lookup:
  "all_finite b \<Longrightarrow> map_of b k = Some v \<Longrightarrow> \<exists>r. v = Num r"
  by (auto simp: all_finite_def list_all_iff is_finite_iff dest!: map_of_SomeD)






text \<open>The guarded updates of the router's calculator.\<close>

lemma keys_update_old: "map_of b k = Some v \<Longrightarrow> map fst (AList.update k v' b) = map fst b"
  by (auto simp: update_keys dest: map_of_SomeD intro: rev_image_eqI)

lemma keys_subtract_own [simp]: "map fst (subtract_own b m x) = map fst b"
  by (auto simp: subtract_own_def keys_update_old split: option.splits)

lemma keys_add_own [simp]: "map fst (add_own b m x) = map fst b"
  by (auto simp: add_own_def keys_update_old split: option.splits)





text \<open>The defaulting updates of the server's calculator.\<close>

lemma or_zero_finite: "all_finite b \<Longrightarrow> \<exists>r. or_zero (map_of b k) = Num r"
  by (cases "map_of b k") (auto dest: all_finite_lookup)

lemma well_formed_subtract_default:
  "well_formed b \<Longrightarrow> well_formed (subtract_default b m (Num x))"
  using or_zero_finite [of b m]
  by (auto simp: subtract_default_def js_sub_def well_formed_def distinct_update
      intro!: all_finite_update)

lemma well_formed_add_default:
  "well_formed b \<Longrightarrow> well_formed (add_default b m (Num x))"
  using or_zero_finite [of b m]
  by (auto simp: add_default_def well_formed_def distinct_update intro!: all_finite_update)



lemma keys_subtract_default: "set (map fst (subtract_default b m x)) = insert m (set (map fst b))"
  by (auto simp: subtract_default_def update_keys)

lemma keys_add_default: "set (map fst (add_default b m x)) = insert m (set (map fst b))"
  by (auto simp: add_default_def update_keys)

section \<open>What one expense does to the total\<close>



lemma sharePerPerson_Num:
  "splitAmong e \<noteq> [] \<Longrightarrow> sharePerPerson e = Num (amount e / of_nat (length (splitAmong e)))"
  by (simp add: sharePerPerson_def js_div_def)












text \<open>How the loops over the participants move the total.\<close>

lemma keyset_subtract_own [simp]: "fst ` set (subtract_own b m x) = fst ` set b"
  by (metis keys_subtract_own list.set_map)

lemma keyset_add_own [simp]: "fst ` set (add_own b m x) = fst ` set b"
  by (metis keys_add_own list.set_map)



lemma keys_fold_subtract_own [simp]:
  "map fst (foldl (\<lambda>b m. subtract_own b m x) b ps) = map fst b"
  by (induction ps arbitrary: b) auto

lemma keys_fold_custom_own [simp]:
  "map fst (foldl (\<lambda>b (m, a). subtract_own b m (Num a)) b ca) = map fst b"
  by (induction ca arbitrary: b) auto

lemma keys_balance_expense [simp]: "map fst (balance_expense b e) = map fst b"
  by (auto simp: balance_expense_def Let_def split: option.splits)






lemma keyset_balance_expense [simp]: "fst ` set (balance_expense b e) = fst ` set b"
  by (metis keys_balance_expense list.set_map)






section \<open>The balance maps sum to zero and stay finite\<close>










section \<open>The balance of one member after an expense\<close>

lemma or_zero_balance_at: "well_formed b \<Longrightarrow> or_zero (map_of b k) = Num (balance_at b k)"
  by (cases "map_of b k") (auto simp: balance_at_def well_formed_def dest: all_finite_lookup)

lemma balance_at_add_default:
  "well_formed b \<Longrightarrow>
   map_of (add_default b m (Num x)) k =
     (if k = m then Some (Num (balance_at b k + x)) else map_of b k)"
  by (simp add: map_of_add_default or_zero_balance_at)

lemma balance_at_subtract_default:
  "well_formed b \<Longrightarrow>
   map_of (subtract_default b m (Num x)) k =
     (if k = m then Some (Num (balance_at b k - x)) else map_of b k)"
  by (simp add: map_of_subtract_default or_zero_balance_at js_sub_def)

lemma at_add_default:
  "well_formed b \<Longrightarrow>
   balance_at (add_default b m (Num x)) k = balance_at b k + (if k = m then x else 0)"
  by (simp add: balance_at_def [of "add_default b m (Num x)"] balance_at_add_default)
     (simp add: balance_at_def)

lemma at_subtract_default:
  "well_formed b \<Longrightarrow>
   balance_at (subtract_default b m (Num x)) k = balance_at b k - (if k = m then x else 0)"
  by (simp add: balance_at_def [of "subtract_default b m (Num x)"] balance_at_subtract_default)
     (simp add: balance_at_def)

lemma fold_default_at:
  "well_formed b \<Longrightarrow>
   map_of (foldl (\<lambda>b m. subtract_default b m (Num (f m))) b ps) k =
     (if k \<in> set ps then Some (Num (balance_at b k - of_nat (count_list ps k) * f k))
      else map_of b k)"
proof (induction ps arbitrary: b)
  case Nil
  then show ?case by simp
next
  case (Cons p ps)
  let ?b1 = "subtract_default b p (Num (f p))"
  have wf1: "well_formed ?b1" using Cons.prems by (simp add: well_formed_subtract_default)
  show ?case
    using Cons.IH [OF wf1] Cons.prems
    by (simp add: at_subtract_default balance_at_subtract_default algebra_simps)
qed

lemma analytics_expense_at:
  assumes "well_formed b"
  shows "map_of (analytics_expense b e) k =
     (if k = paidBy e \<or> k \<in> set (splitAmong e) then
        Some (Num (balance_at b k + (if k = paidBy e then amount e else 0)
          - of_nat (count_list (splitAmong e) k) *
              (case (if splitMethod e = ''custom'' then customAmounts e else None) of
                 Some ca \<Rightarrow> custom_share ca k
               | None \<Rightarrow> amount e / of_nat (length (splitAmong e)))))
      else map_of b k)"
proof -
  let ?b1 = "add_default b (paidBy e) (Num (amount e))"
  have wf1: "well_formed ?b1" using assms by (simp add: well_formed_add_default)
  note at1 = at_add_default [OF assms, of "paidBy e" "amount e"]
  note m1 = balance_at_add_default [OF assms, of "paidBy e" "amount e"]
  show ?thesis
  proof (cases "if splitMethod e = ''custom'' then customAmounts e else None")
    case (Some ca)
    then have "analytics_expense b e =
        foldl (\<lambda>b m. subtract_default b m (Num (custom_share ca m))) ?b1 (splitAmong e)"
      by (simp add: analytics_expense_def)
    then show ?thesis
      using fold_default_at [OF wf1, of "custom_share ca" "splitAmong e" k] Some
      by (auto simp: at1 m1 count_list_0_iff)
  next
    case None
    show ?thesis
    proof (cases "splitAmong e = []")
      case True
      with None show ?thesis by (simp add: analytics_expense_def m1)
    next
      case False
      with None have "analytics_expense b e =
          foldl (\<lambda>b m. subtract_default b m (Num ((\<lambda>_. amount e / of_nat (length (splitAmong e))) m)))
            ?b1 (splitAmong e)"
        by (simp add: analytics_expense_def sharePerPerson_Num)
      then show ?thesis
        using fold_default_at [OF wf1, of "\<lambda>_. amount e / of_nat (length (splitAmong e))" "splitAmong e" k] None
        by (auto simp: at1 m1 count_list_0_iff)
    qed
  qed
qed

lemma js_sub_zero [simp]: "js_sub v (Num 0) = v"
  by (cases v) (simp_all add: js_sub_def)

lemma js_sub_sub: "js_sub (js_sub v (Num a)) (Num c) = js_sub v (Num (a + c))"
  by (cases v) (simp_all add: js_sub_def)


lemma fold_equal_own_at:
  "map_of (foldl (\<lambda>b m. subtract_own b m (Num x)) b ps) k =
     map_option (\<lambda>v. js_sub v (Num (of_nat (count_list ps k) * x))) (map_of b k)"
proof (induction ps arbitrary: b)
  case Nil
  then show ?case by (simp add: option.map_ident)
next
  case (Cons p ps)
  show ?case
    by (cases "map_of b k") (auto simp: Cons.IH map_of_subtract_own js_sub_sub algebra_simps)
qed



lemma keys_analytics_kept:
  "well_formed b \<Longrightarrow> map_of b k \<noteq> None \<Longrightarrow> map_of (analytics_expense b e) k \<noteq> None"
  by (simp add: analytics_expense_at)




section \<open>Payers outside the group and custom shares\<close>







section \<open>The custom-split check of the creation endpoint\<close>






section \<open>The ledger invariant of the server's planner\<close>

lemma map_person_debtors: "map person (debtors_of b) = map fst (filter (\<lambda>(p, v). v < - (1 / 100)) b)"
  by (simp add: debtors_of_def case_prod_beta comp_def)

lemma map_person_creditors: "map person (creditors_of b) = map fst (filter (\<lambda>(p, v). v > 1 / 100) b)"
  by (simp add: creditors_of_def case_prod_beta comp_def)

lemma distinct_debtors: "distinct (map fst b) \<Longrightarrow> distinct (map person (debtors_of b))"
  by (simp add: map_person_debtors distinct_map_filter)

lemma distinct_creditors: "distinct (map fst b) \<Longrightarrow> distinct (map person (creditors_of b))"
  by (simp add: map_person_creditors distinct_map_filter)

lemma debtor_entry:
  assumes "distinct (map fst b)" and "k < length (debtors_of b)"
  shows "map_of b (person (debtors_of b ! k)) = Some (- party_amount (debtors_of b ! k))
       \<and> party_amount (debtors_of b ! k) > 1 / 100"
proof -
  have "debtors_of b ! k \<in> set (debtors_of b)" using assms(2) by simp
  then obtain p v where "(p, v) \<in> set b" "v < - (1 / 100)"
    "debtors_of b ! k = \<lparr>person = p, party_amount = - v\<rparr>"
    by (auto simp: debtors_of_def)
  then show ?thesis using assms(1) by (simp add: map_of_is_SomeI)
qed

lemma creditor_entry:
  assumes "distinct (map fst b)" and "k < length (creditors_of b)"
  shows "map_of b (person (creditors_of b ! k)) = Some (party_amount (creditors_of b ! k))
       \<and> party_amount (creditors_of b ! k) > 1 / 100"
proof -
  have "creditors_of b ! k \<in> set (creditors_of b)" using assms(2) by simp
  then obtain p v where "(p, v) \<in> set b" "v > 1 / 100"
    "creditors_of b ! k = \<lparr>person = p, party_amount = v\<rparr>"
    by (auto simp: creditors_of_def)
  then show ?thesis using assms(1) by (simp add: map_of_is_SomeI)
qed

lemma debtor_not_creditor:
  assumes "distinct (map fst b)" and "k < length (debtors_of b)" and "l < length (creditors_of b)"
  shows "person (debtors_of b ! k) \<noteq> person (creditors_of b ! l)"
  using debtor_entry [OF assms(1,2)] creditor_entry [OF assms(1,3)] by auto

lemma ledger_inv_init:
  assumes "distinct (map fst b)"
  shows "ledger_inv b (debtors_of b, creditors_of b, 0, 0, [])"
proof -
  have "0 \<le> party_amount (debtors_of b ! k)" if "k < length (debtors_of b)" for k
    using debtor_entry [OF assms that] by simp
  moreover have "0 \<le> party_amount (creditors_of b ! k)" if "k < length (creditors_of b)" for k
    using creditor_entry [OF assms that] by simp
  ultimately show ?thesis
    using assms by (simp add: ledger_inv_def apply_settlements_def debtor_entry creditor_entry)
qed

lemma map_of_apply_settlement:
  "map_of (apply_settlement L s) m =
     (if m = s_to s then map_option (\<lambda>v. v - s_amount s)
          (if s_to s = s_from s then map_option (\<lambda>v. v + s_amount s) (map_of L (s_from s))
           else map_of L (s_to s))
      else if m = s_from s then map_option (\<lambda>v. v + s_amount s) (map_of L (s_from s))
      else map_of L m)"
  by (simp add: apply_settlement_def map_of_adjust)

lemma ledger_inv_step:
  assumes d: "distinct (map fst b)" and inv: "ledger_inv b st" and r: "in_range st"
  shows "ledger_inv b (settle_step st)"
proof -
  obtain ds cs i j ss where st: "st = (ds, cs, i, j, ss)" by (cases st) auto
  from r st have i: "i < length ds" and j: "j < length cs" by auto
  define a where "a = min (party_amount (ds ! i)) (party_amount (cs ! j))"
  define s where "s = \<lparr>s_from = person (ds ! i), s_to = person (cs ! j), s_amount = a\<rparr>"
  define ds' where "ds' = ds[i := (ds ! i)\<lparr>party_amount := party_amount (ds ! i) - a\<rparr>]"
  define cs' where "cs' = cs[j := (cs ! j)\<lparr>party_amount := party_amount (cs ! j) - a\<rparr>]"
  define i' where "i' = (if party_amount (ds' ! i) < 1 / 100 then i + 1 else i)"
  define j' where "j' = (if party_amount (cs' ! j) < 1 / 100 then j + 1 else j)"
  define L where "L = apply_settlements b ss"
  have step: "settle_step st = (ds', cs', i', j', ss @ [s])"
    by (simp add: settle_step_def st Let_def a_def s_def ds'_def cs'_def i'_def j'_def)
  have L': "apply_settlements b (ss @ [s]) = apply_settlement L s"
    by (simp add: apply_settlements_def L_def)
  from inv have len: "length ds = length (debtors_of b)" "length cs = length (creditors_of b)"
    unfolding st ledger_inv_def prod.case by blast+
  from inv st have D: "person (ds ! k) = person (debtors_of b ! k)"
      "0 \<le> party_amount (ds ! k)" "party_amount (ds ! k) \<le> party_amount (debtors_of b ! k)"
      "map_of L (person (ds ! k)) = Some (- party_amount (ds ! k))"
      "k < i \<Longrightarrow> party_amount (ds ! k) < 1 / 100" if "k < length ds" for k
    using that unfolding st ledger_inv_def L_def prod.case by blast+
  from inv st have C: "person (cs ! k) = person (creditors_of b ! k)"
      "0 \<le> party_amount (cs ! k)" "party_amount (cs ! k) \<le> party_amount (creditors_of b ! k)"
      "map_of L (person (cs ! k)) = Some (party_amount (cs ! k))"
      "k < j \<Longrightarrow> party_amount (cs ! k) < 1 / 100" if "k < length cs" for k
    using that unfolding st ledger_inv_def L_def prod.case by blast+
  from inv st have O: "map_of L m = map_of b m"
    if "m \<notin> person ` set (debtors_of b)" "m \<notin> person ` set (creditors_of b)" for m
    using that unfolding st ledger_inv_def L_def prod.case by blast
  have a0: "0 \<le> a" "a \<le> party_amount (ds ! i)" "a \<le> party_amount (cs ! j)"
    using D(2) [OF i] C(2) [OF j] by (simp_all add: a_def)
  have dd: "person (ds ! k) \<noteq> person (ds ! i)" if "k < length ds" "k \<noteq> i" for k
    using distinct_debtors [OF d] that i len D(1)
    by (metis distinct_conv_nth length_map nth_map)
  have cc: "person (cs ! k) \<noteq> person (cs ! j)" if "k < length cs" "k \<noteq> j" for k
    using distinct_creditors [OF d] that j len C(1)
    by (metis distinct_conv_nth length_map nth_map)
  have dc: "person (ds ! k) \<noteq> person (cs ! l)" if "k < length ds" "l < length cs" for k l
    using debtor_not_creditor [OF d, of k l] that len D(1) C(1) by simp
  have Ld: "map_of (apply_settlement L s) (person (ds ! k)) = Some (- party_amount (ds' ! k))"
    if "k < length ds" for k
  proof (cases "k = i")
    case True
    then show ?thesis
      using i j dc [OF i j] D(4) [OF i]
      by (simp add: map_of_apply_settlement s_def ds'_def)
  next
    case False
    then show ?thesis
      using that i j dc [OF that j] dd [OF that False] D(4) [OF that]
      by (simp add: map_of_apply_settlement s_def ds'_def)
  qed
  have Lc: "map_of (apply_settlement L s) (person (cs ! k)) = Some (party_amount (cs' ! k))"
    if "k < length cs" for k
  proof (cases "k = j")
    case True
    then show ?thesis
      using i j dc [OF i j] C(4) [OF j]
      by (simp add: map_of_apply_settlement s_def cs'_def)
  next
    case False
    then show ?thesis
      using that i j dc [OF i that] cc [OF that False] C(4) [OF that]
      by (simp add: map_of_apply_settlement s_def cs'_def)
  qed
  have Lo: "map_of (apply_settlement L s) m = map_of b m"
    if "m \<notin> person ` set (debtors_of b)" "m \<notin> person ` set (creditors_of b)" for m
  proof -
    have "person (ds ! i) \<in> person ` set (debtors_of b)"
      using i len D(1) [OF i] by (metis imageI nth_mem)
    moreover have "person (cs ! j) \<in> person ` set (creditors_of b)"
      using j len C(1) [OF j] by (metis imageI nth_mem)
    ultimately have "m \<noteq> person (ds ! i)" "m \<noteq> person (cs ! j)" using that by auto
    then show ?thesis using O [OF that] by (simp add: map_of_apply_settlement s_def)
  qed
  have pd: "person (ds' ! k) = person (ds ! k)" "0 \<le> party_amount (ds' ! k)"
      "party_amount (ds' ! k) \<le> party_amount (ds ! k)" if "k < length ds" for k
    using that i a0 D(2) [OF that] by (auto simp: ds'_def nth_list_update)
  have pc: "person (cs' ! k) = person (cs ! k)" "0 \<le> party_amount (cs' ! k)"
      "party_amount (cs' ! k) \<le> party_amount (cs ! k)" if "k < length cs" for k
    using that j a0 C(2) [OF that] by (auto simp: cs'_def nth_list_update)
  have sd: "party_amount (ds' ! k) < 1 / 100" if "k < length ds" "k < i'" for k
    using that i D(5) [OF that(1)] by (cases "k = i") (auto simp: i'_def ds'_def split: if_splits)
  have sc: "party_amount (cs' ! k) < 1 / 100" if "k < length cs" "k < j'" for k
    using that j C(5) [OF that(1)] by (cases "k = j") (auto simp: j'_def cs'_def split: if_splits)
  have le: "i' \<le> length ds'" "j' \<le> length cs'" "length ds' = length ds" "length cs' = length cs"
    using i j by (simp_all add: i'_def j'_def ds'_def cs'_def)
  have td: "party_amount (ds' ! k) \<le> party_amount (debtors_of b ! k)" if "k < length ds" for k
    using pd(3) [OF that] D(3) [OF that] by linarith
  have tc: "party_amount (cs' ! k) \<le> party_amount (creditors_of b ! k)" if "k < length cs" for k
    using pc(3) [OF that] C(3) [OF that] by linarith
  show ?thesis
    unfolding step ledger_inv_def prod.case L'
    using le len pd(1,2) pc(1,2) sd sc Ld Lc Lo D(1) C(1) td tc
    by simp
qed

lemma server_final:
  assumes "distinct (map fst b)"
  obtains ds cs i j where
    "ledger_inv b (ds, cs, i, j, calculateSettlements_server b)"
    "\<not> (i < length ds \<and> j < length cs)"
proof -
  let ?st = "(debtors_of b, creditors_of b, 0::nat, 0::nat, [] :: settlement list)"
  have "ledger_inv b (settle_loop ?st) \<and> \<not> in_range (settle_loop ?st)"
    by (rule settle_loop_rule [where P = "ledger_inv b"])
       (simp_all add: ledger_inv_init assms ledger_inv_step)
  moreover obtain ds cs i j ss where f: "settle_loop ?st = (ds, cs, i, j, ss)"
    by (cases "settle_loop ?st") auto
  moreover from f have "calculateSettlements_server b = ss"
    by (simp add: calculateSettlements_server_eq)
  ultimately show ?thesis using that by auto
qed

lemma debtor_index:
  assumes "(m, v) \<in> set b" and "v < - (1 / 100)"
  obtains k where "k < length (debtors_of b)" "person (debtors_of b ! k) = m"
    "party_amount (debtors_of b ! k) = - v"
proof -
  have "\<lparr>person = m, party_amount = - v\<rparr> \<in> set (debtors_of b)"
    using assms by (force simp: debtors_of_def)
  then obtain k where "k < length (debtors_of b)" "debtors_of b ! k = \<lparr>person = m, party_amount = - v\<rparr>"
    by (auto simp: in_set_conv_nth)
  then show ?thesis using that by simp
qed

lemma creditor_index:
  assumes "(m, v) \<in> set b" and "v > 1 / 100"
  obtains k where "k < length (creditors_of b)" "person (creditors_of b ! k) = m"
    "party_amount (creditors_of b ! k) = v"
proof -
  have "\<lparr>person = m, party_amount = v\<rparr> \<in> set (creditors_of b)"
    using assms by (force simp: creditors_of_def)
  then obtain k where "k < length (creditors_of b)" "creditors_of b ! k = \<lparr>person = m, party_amount = v\<rparr>"
    by (auto simp: in_set_conv_nth)
  then show ?thesis using that by simp
qed

lemma dead_not_party:
  assumes "distinct (map fst b)" and "map_of b m = Some v" and "- (1 / 100) \<le> v" and "v \<le> 1 / 100"
  shows "m \<notin> person ` set (debtors_of b)" "m \<notin> person ` set (creditors_of b)"
proof -
  have u: "v' = v" if "(m, v') \<in> set b" for v'
    using that assms(1,2) by (simp add: map_of_is_SomeI)
  show "m \<notin> person ` set (debtors_of b)" "m \<notin> person ` set (creditors_of b)"
    using assms(3,4) by (auto simp: debtors_of_def creditors_of_def dest!: u)
qed

lemma server_moves_toward_zero:
  assumes d: "distinct (map fst b)" and m: "map_of b m = Some v"
  shows "\<exists>v'. map_of (settled_server b) m = Some v' \<and>
           (v < - (1 / 100) \<longrightarrow> v \<le> v' \<and> v' \<le> 0) \<and>
           (1 / 100 < v \<longrightarrow> 0 \<le> v' \<and> v' \<le> v) \<and>
           (- (1 / 100) \<le> v \<and> v \<le> 1 / 100 \<longrightarrow> v' = v)"
proof -
  obtain ds cs i j where inv: "ledger_inv b (ds, cs, i, j, calculateSettlements_server b)"
    by (rule server_final [OF d])
  from m have mem: "(m, v) \<in> set b" by (rule map_of_SomeD)
  consider "v < - (1 / 100)" | "1 / 100 < v" | "- (1 / 100) \<le> v \<and> v \<le> 1 / 100" by linarith
  then show ?thesis
  proof cases
    case 1
    obtain k where k: "k < length (debtors_of b)" "person (debtors_of b ! k) = m"
      "party_amount (debtors_of b ! k) = - v"
      by (rule debtor_index [OF mem 1])
    from inv k(1) have "person (ds ! k) = person (debtors_of b ! k)" "0 \<le> party_amount (ds ! k)"
      "party_amount (ds ! k) \<le> party_amount (debtors_of b ! k)"
      "map_of (apply_settlements b (calculateSettlements_server b)) (person (ds ! k))
         = Some (- party_amount (ds ! k))"
      unfolding ledger_inv_def prod.case by auto
    with k 1 show ?thesis by (auto simp: settled_server_def)
  next
    case 2
    obtain k where k: "k < length (creditors_of b)" "person (creditors_of b ! k) = m"
      "party_amount (creditors_of b ! k) = v"
      by (rule creditor_index [OF mem 2])
    from inv k(1) have "person (cs ! k) = person (creditors_of b ! k)" "0 \<le> party_amount (cs ! k)"
      "party_amount (cs ! k) \<le> party_amount (creditors_of b ! k)"
      "map_of (apply_settlements b (calculateSettlements_server b)) (person (cs ! k))
         = Some (party_amount (cs ! k))"
      unfolding ledger_inv_def prod.case by auto
    with k 2 show ?thesis by (auto simp: settled_server_def)
  next
    case 3
    then have "m \<notin> person ` set (debtors_of b)" "m \<notin> person ` set (creditors_of b)"
      using dead_not_party [OF d m] by auto
    with inv have "map_of (apply_settlements b (calculateSettlements_server b)) m = map_of b m"
      unfolding ledger_inv_def prod.case by blast
    with m 3 show ?thesis by (auto simp: settled_server_def)
  qed
qed

lemma server_one_side:
  assumes d: "distinct (map fst b)"
  shows "(\<forall>m v v'. map_of b m = Some v \<and> v < - (1 / 100) \<and> map_of (settled_server b) m = Some v'
            \<longrightarrow> - (1 / 100) < v')
       \<or> (\<forall>m v v'. map_of b m = Some v \<and> 1 / 100 < v \<and> map_of (settled_server b) m = Some v'
            \<longrightarrow> v' < 1 / 100)"
proof -
  obtain ds cs i j where inv: "ledger_inv b (ds, cs, i, j, calculateSettlements_server b)"
    and ex: "\<not> (i < length ds \<and> j < length cs)"
    by (rule server_final [OF d])
  from inv have le: "i \<le> length ds" "j \<le> length cs" "length ds = length (debtors_of b)"
    "length cs = length (creditors_of b)"
    unfolding ledger_inv_def prod.case by auto
  from ex le consider "i = length ds" | "j = length cs" by linarith
  then show ?thesis
  proof cases
    case 1
    have "- (1 / 100) < v'"
      if h: "map_of b m = Some v" "v < - (1 / 100)" "map_of (settled_server b) m = Some v'" for m v v'
    proof -
      obtain k where k: "k < length (debtors_of b)" "person (debtors_of b ! k) = m"
        by (rule debtor_index [OF map_of_SomeD [OF h(1)] h(2)])
      from inv k(1) le 1 have "person (ds ! k) = person (debtors_of b ! k)"
        "map_of (apply_settlements b (calculateSettlements_server b)) (person (ds ! k))
           = Some (- party_amount (ds ! k))" "party_amount (ds ! k) < 1 / 100"
        unfolding ledger_inv_def prod.case by auto
      with k h(3) show ?thesis by (auto simp: settled_server_def)
    qed
    then show ?thesis by blast
  next
    case 2
    have "v' < 1 / 100"
      if h: "map_of b m = Some v" "1 / 100 < v" "map_of (settled_server b) m = Some v'" for m v v'
    proof -
      obtain k where k: "k < length (creditors_of b)" "person (creditors_of b ! k) = m"
        by (rule creditor_index [OF map_of_SomeD [OF h(1)] h(2)])
      from inv k(1) le 2 have "person (cs ! k) = person (creditors_of b ! k)"
        "map_of (apply_settlements b (calculateSettlements_server b)) (person (cs ! k))
           = Some (party_amount (cs ! k))" "party_amount (cs ! k) < 1 / 100"
        unfolding ledger_inv_def prod.case by auto
      with k h(3) show ?thesis by (auto simp: settled_server_def)
    qed
    then show ?thesis by blast
  qed
qed

section \<open>Settlements conserve the sum\<close>

lemma sum_update:
  "distinct (map fst b) \<Longrightarrow> map_of b k = Some v \<Longrightarrow>
   sum_list (map snd (AList.update k v' b)) = sum_list (map snd b) - v + (v' :: rat)"
proof (induction b)
  case Nil
  then show ?case by simp
next
  case (Cons a b)
  obtain k0 v0 where a: "a = (k0, v0)" by (cases a)
  show ?case
  proof (cases "k0 = k")
    case True
    with Cons.prems a show ?thesis by simp
  next
    case False
    with Cons a show ?thesis by simp
  qed
qed

lemma sum_adjust:
  "distinct (map fst b) \<Longrightarrow> map_of b k = Some v \<Longrightarrow>
   sum_list (map snd (adjust k d b)) = sum_list (map snd b) + d"
  by (simp add: adjust_def sum_update)

lemma sum_apply_settlement:
  assumes "distinct (map fst b)" and "s_from s \<in> fst ` set b" and "s_to s \<in> fst ` set b"
  shows "sum_list (map snd (apply_settlement b s)) = sum_list (map snd b)"
proof -
  let ?b1 = "adjust (s_from s) (s_amount s) b"
  obtain v where v: "map_of b (s_from s) = Some v"
    using assms(2) by (cases "map_of b (s_from s)") (auto simp: map_of_eq_None_iff)
  have k1: "map fst ?b1 = map fst b" by simp
  then have "s_to s \<in> fst ` set ?b1" using assms(3) by (metis list.set_map)
  then obtain w where w: "map_of ?b1 (s_to s) = Some w"
    by (cases "map_of ?b1 (s_to s)") (auto simp: map_of_eq_None_iff)
  have "sum_list (map snd (adjust (s_to s) (- s_amount s) ?b1)) = sum_list (map snd ?b1) - s_amount s"
    using sum_adjust [OF _ w, of "- s_amount s"] assms(1) by simp
  also have "sum_list (map snd ?b1) = sum_list (map snd b) + s_amount s"
    by (rule sum_adjust [OF assms(1) v])
  finally show ?thesis by (simp add: apply_settlement_def)
qed

lemma keys_apply_settlement [simp]: "map fst (apply_settlement b s) = map fst b"
  by (simp add: apply_settlement_def)

lemma keys_apply_settlements [simp]: "map fst (apply_settlements b ss) = map fst b"
  unfolding apply_settlements_def by (induction ss arbitrary: b) simp_all

lemma sum_apply_settlements:
  assumes "distinct (map fst b)"
    and "\<forall>s \<in> set ss. s_from s \<in> fst ` set b \<and> s_to s \<in> fst ` set b"
  shows "sum_list (map snd (apply_settlements b ss)) = sum_list (map snd b)"
  using assms
proof (induction ss arbitrary: b)
  case Nil
  then show ?case by (simp add: apply_settlements_def)
next
  case (Cons s ss)
  have k: "fst ` set (apply_settlement b s) = fst ` set b"
    by (metis keys_apply_settlement list.set_map)
  have "sum_list (map snd (apply_settlements (apply_settlement b s) ss))
        = sum_list (map snd (apply_settlement b s))"
    using Cons.prems by (intro Cons.IH) (simp_all add: k)
  also have "\<dots> = sum_list (map snd b)"
    using Cons.prems by (intro sum_apply_settlement) simp_all
  finally show ?case by (simp add: apply_settlements_def)
qed

lemma parties_are_keys:
  "person ` set (debtors_of b) \<subseteq> fst ` set b" "person ` set (creditors_of b) \<subseteq> fst ` set b"
  by (auto simp: debtors_of_def creditors_of_def intro: rev_image_eqI)

lemma sum_settled_server:
  assumes "distinct (map fst b)"
  shows "sum_list (map snd (settled_server b)) = sum_list (map snd b)"
  unfolding settled_server_def
  using server_parties [of _ b] parties_are_keys [of b]
  by (intro sum_apply_settlements assms) blast

lemma sum_list_lower:
  "(\<forall>x \<in> set xs. - e \<le> x) \<Longrightarrow> - (of_nat (length xs) * e) \<le> sum_list (xs :: rat list)"
  by (induction xs) (auto simp: algebra_simps)

lemma bounded_by_rest:
  assumes s: "sum_list xs = 0" and lo: "\<forall>x \<in> set xs. - e \<le> x" and e: "0 \<le> e" and x: "x \<in> set xs"
  shows "\<bar>x :: rat\<bar> \<le> (of_nat (length xs) - 1) * e"
proof -
  from x obtain ys zs where xs: "xs = ys @ x # zs" by (auto simp: in_set_conv_decomp)
  have "- (of_nat (length (ys @ zs)) * e) \<le> sum_list (ys @ zs)"
    using lo xs by (intro sum_list_lower) auto
  moreover have "x = - sum_list (ys @ zs)" using s xs by simp
  ultimately have up: "x \<le> (of_nat (length xs) - 1) * e" using xs by (simp add: algebra_simps)
  have "- ((of_nat (length xs) - 1) * e) \<le> x"
  proof (cases "ys @ zs = []")
    case True
    then show ?thesis using s xs by simp
  next
    case False
    then have "1 \<le> length (ys @ zs)" by (cases "ys @ zs") auto
    then have "(1 :: rat) \<le> of_nat (length xs) - 1" using xs by simp
    then have "e \<le> (of_nat (length xs) - 1) * e" using e by (simp add: mult_le_cancel_right1)
    moreover have "- e \<le> x" using lo x by blast
    ultimately show ?thesis by linarith
  qed
  with up show ?thesis by (simp add: abs_le_iff)
qed

lemma bounded_by_rest_upper:
  assumes s: "sum_list xs = 0" and hi: "\<forall>x \<in> set xs. x \<le> e" and e: "0 \<le> e" and x: "x \<in> set xs"
  shows "\<bar>x :: rat\<bar> \<le> (of_nat (length xs) - 1) * e"
proof -
  have "sum_list (map uminus ys) = - sum_list ys" for ys :: "rat list"
    by (induction ys) simp_all
  then have "sum_list (map uminus xs) = 0" using s by simp
  moreover have "\<forall>y \<in> set (map uminus xs). - e \<le> y" using hi by auto
  moreover have "- x \<in> set (map uminus xs)" using x by auto
  ultimately have "\<bar>- x\<bar> \<le> (of_nat (length (map uminus xs)) - 1) * e"
    using e by (intro bounded_by_rest) 
  then show ?thesis by simp
qed

section \<open>What applying the settlements achieves\<close>

lemma server_bound:
  assumes d: "distinct (map fst b)" and z: "sum_list (map snd b) = 0"
    and m: "map_of (settled_server b) m = Some v'"
  shows "\<bar>v'\<bar> \<le> (of_nat (length b) - 1) / 100"
proof -
  let ?f = "settled_server b"
  have keys: "map fst ?f = map fst b" by (simp add: settled_server_def)
  then have len: "length ?f = length b" by (metis length_map)
  have df: "distinct (map fst ?f)" using d keys by simp
  have s0: "sum_list (map snd ?f) = 0" using sum_settled_server [OF d] z by simp
  have x: "v' \<in> set (map snd ?f)" using map_of_SomeD [OF m] by force
  have orig: "\<exists>v. map_of b k = Some v \<and>
      (v < - (1 / 100) \<longrightarrow> v \<le> w \<and> w \<le> 0) \<and> (1 / 100 < v \<longrightarrow> 0 \<le> w \<and> w \<le> v) \<and>
      (- (1 / 100) \<le> v \<and> v \<le> 1 / 100 \<longrightarrow> w = v)"
    if "(k, w) \<in> set ?f" for k w
  proof -
    have "k \<in> fst ` set b" using that keys by (metis fst_conv imageI list.set_map)
    then obtain v where v: "map_of b k = Some v"
      by (cases "map_of b k") (auto simp: map_of_eq_None_iff)
    have "map_of ?f k = Some w" using that df by (simp add: map_of_is_SomeI)
    with server_moves_toward_zero [OF d v] v show ?thesis by auto
  qed
  have fw: "map_of ?f k = Some w" if "(k, w) \<in> set ?f" for k w
    using that df by (simp add: map_of_is_SomeI)
  from server_one_side [OF d] show ?thesis
  proof
    assume A: "\<forall>m v v'. map_of b m = Some v \<and> v < - (1 / 100) \<and> map_of ?f m = Some v'
            \<longrightarrow> - (1 / 100) < v'"
    have "\<forall>y \<in> set (map snd ?f). - (1 / 100) \<le> y"
    proof
      fix y assume "y \<in> set (map snd ?f)"
      then obtain k where k: "(k, y) \<in> set ?f" by auto
      from orig [OF k] obtain v where v: "map_of b k = Some v"
        "v < - (1 / 100) \<longrightarrow> v \<le> y \<and> y \<le> 0" "1 / 100 < v \<longrightarrow> 0 \<le> y \<and> y \<le> v"
        "- (1 / 100) \<le> v \<and> v \<le> 1 / 100 \<longrightarrow> y = v" by blast
      consider "v < - (1 / 100)" | "1 / 100 < v" | "- (1 / 100) \<le> v \<and> v \<le> 1 / 100" by linarith
      then show "- (1 / 100) \<le> y"
      proof cases
        case 1
        with A v(1) fw [OF k] have "- (1 / 100) < y" by blast
        then show ?thesis by simp
      next
        case 2
        with v(3) show ?thesis by simp
      next
        case 3
        with v(4) show ?thesis by simp
      qed
    qed
    from bounded_by_rest [OF s0 this _ x] show ?thesis by (simp add: len)
  next
    assume B: "\<forall>m v v'. map_of b m = Some v \<and> 1 / 100 < v \<and> map_of ?f m = Some v'
            \<longrightarrow> v' < 1 / 100"
    have "\<forall>y \<in> set (map snd ?f). y \<le> 1 / 100"
    proof
      fix y assume "y \<in> set (map snd ?f)"
      then obtain k where k: "(k, y) \<in> set ?f" by auto
      from orig [OF k] obtain v where v: "map_of b k = Some v"
        "v < - (1 / 100) \<longrightarrow> v \<le> y \<and> y \<le> 0" "1 / 100 < v \<longrightarrow> 0 \<le> y \<and> y \<le> v"
        "- (1 / 100) \<le> v \<and> v \<le> 1 / 100 \<longrightarrow> y = v" by blast
      consider "v < - (1 / 100)" | "1 / 100 < v" | "- (1 / 100) \<le> v \<and> v \<le> 1 / 100" by linarith
      then show "y \<le> 1 / 100"
      proof cases
        case 1
        with v(2) show ?thesis by simp
      next
        case 2
        with B v(1) fw [OF k] have "y < 1 / 100" by blast
        then show ?thesis by simp
      next
        case 3
        with v(4) show ?thesis by simp
      qed
    qed
    from bounded_by_rest_upper [OF s0 this _ x] show ?thesis by (simp add: len)
  qed
qed

text \<open>
  C1 (as the code has it).  Take a balance map with distinct keys and apply the
  settlements of the server's planner in order, raising the payer's balance by the amount
  and lowering the receiver's.  Every balance moves toward zero without crossing it, and a
  balance in the dead zone is unchanged; either every debtor or every creditor ends
  strictly within 0.01 of zero; and when the values sum to 0, every balance ends within
  \<open>0.01 * (n - 1)\<close> of zero, \<open>n\<close> being the number of members.
\<close>

theorem settlement_effect:
  assumes "distinct (map fst balances)"
  shows "(\<forall>m v. map_of balances m = Some v \<longrightarrow>
            (\<exists>v'. map_of (settled_server balances) m = Some v' \<and>
               (v < - (1 / 100) \<longrightarrow> v \<le> v' \<and> v' \<le> 0) \<and>
               (1 / 100 < v \<longrightarrow> 0 \<le> v' \<and> v' \<le> v) \<and>
               (- (1 / 100) \<le> v \<and> v \<le> 1 / 100 \<longrightarrow> v' = v)))
       \<and> ((\<forall>m v v'. map_of balances m = Some v \<and> v < - (1 / 100) \<and>
               map_of (settled_server balances) m = Some v' \<longrightarrow> - (1 / 100) < v')
          \<or> (\<forall>m v v'. map_of balances m = Some v \<and> 1 / 100 < v \<and>
               map_of (settled_server balances) m = Some v' \<longrightarrow> v' < 1 / 100))
       \<and> (sum_list (map snd balances) = 0 \<longrightarrow>
            (\<forall>m v'. map_of (settled_server balances) m = Some v' \<longrightarrow>
               \<bar>v'\<bar> \<le> (of_nat (length balances) - 1) / 100))"
  using server_moves_toward_zero [OF assms] server_one_side [OF assms] server_bound [OF assms]
  by blast

theorem settlement_effect_witness:
  "\<exists>v'. map_of (settled_server trip_ledger) ''B'' = Some v' \<and> - 30 \<le> v' \<and> v' \<le> 0
         \<and> \<bar>v'\<bar> \<le> 2 / 100"
proof -
  have d: "distinct (map fst trip_ledger)" by (simp add: trip_ledger_def)
  have m: "map_of trip_ledger ''B'' = Some (- 30)" by (simp add: trip_ledger_def)
  have z: "sum_list (map snd trip_ledger) = 0" "length trip_ledger = 3"
    by (simp_all add: trip_ledger_def)
  from settlement_effect [OF d] m z show ?thesis by fastforce
qed

text \<open>
  C1 as stated fails.  Read literally (subtract from the payer, add to the receiver) the
  settlements of the ledger \<open>60, - 30, - 30\<close> drive it to \<open>120, - 60, - 60\<close>.  With the
  signs the right way round it still fails: the ledger \<open>0.02, - 0.01, - 0.01\<close> sums to 0,
  both planners return no settlement for it, and \<open>A\<close> stays at 0.02.
\<close>

theorem settlement_effect_counterexample:
  "sum_list (map snd trip_ledger) = 0
   \<and> apply_settlements_subtract_from trip_ledger (calculateSettlements_server trip_ledger)
       = [(''A'', 120), (''B'', - 60), (''C'', - 60)]
   \<and> sum_list (map snd cents_ledger) = 0
   \<and> calculateSettlements_server cents_ledger = []
   \<and> calculateSettlements_router cents_ledger = []
   \<and> map_of (apply_settlements cents_ledger (calculateSettlements_server cents_ledger)) ''A''
       = Some (2 / 100)
   \<and> map_of (apply_settlements_subtract_from cents_ledger (calculateSettlements_server cents_ledger)) ''A''
       = Some (2 / 100)"
proof -
  have 1: "calculateSettlements_server trip_ledger =
      [\<lparr>s_from = ''B'', s_to = ''A'', s_amount = 30\<rparr>, \<lparr>s_from = ''C'', s_to = ''A'', s_amount = 30\<rparr>]"
    by (simp add: trip_ledger_def calculateSettlements_server_def classify_def settle_loop.simps
        settle_step_def Let_def)
  have 2: "calculateSettlements_server cents_ledger = []"
    by (simp add: cents_ledger_def calculateSettlements_server_def classify_def settle_loop.simps)
  have 3: "calculateSettlements_router cents_ledger = []"
    by (simp add: cents_ledger_def calculateSettlements_router_def settle_all_def settle_pair_def
        Let_def upt_rec)
  show ?thesis
    unfolding 1 2 3
    by (simp add: trip_ledger_def cents_ledger_def apply_settlements_subtract_from_def
        apply_settlement_subtract_from_def apply_settlements_def adjust_def)
qed

section \<open>The planners leave the caller's balance map alone\<close>

lemma kept_refl [simp]: "kept s s" by (simp add: kept_def)

lemma kept_put: "fresh s0 \<le> r \<Longrightarrow> kept s0 s \<Longrightarrow> kept s0 (put s r c)"
  by (auto simp: kept_def put_def)

lemma kept_alloc: "kept s0 s \<Longrightarrow> kept s0 (snd (alloc s c))"
  by (auto simp: kept_def alloc_def)

lemma alloc_ref: "fst (alloc s c) = fresh s" "fresh (snd (alloc s c)) = Suc (fresh s)"
  "cells (snd (alloc s c)) (fresh s) = Some c"
  by (simp_all add: alloc_def)

lemma router_sim_pair:
  "fresh s0 \<le> r \<Longrightarrow> router_sim r s0 pure st \<Longrightarrow>
   router_sim r s0 (settle_pair ms i pure j) (settle_pair_store ms r i st j)"
  by (cases pure; cases st; cases "settle_pair ms i pure j")
     (auto simp: router_sim_def settle_pair_store_def kept_put, simp add: put_def)

lemma fold_sim:
  assumes "\<And>p q x. R p q \<Longrightarrow> R (f p x) (g q x)" and "R p q"
  shows "R (foldl f p xs) (foldl g q xs)"
  using assms(2) by (induction xs arbitrary: p q) (auto intro: assms(1))

lemma router_sim_all:
  assumes "fresh s0 \<le> r" and "router_sim r s0 pure st"
  shows "router_sim r s0
     (foldl (\<lambda>st i. foldl (settle_pair ms i) st [i + 1 ..< n]) pure is)
     (foldl (\<lambda>st i. foldl (settle_pair_store ms r i) st [i + 1 ..< n]) st is)"
proof (rule fold_sim [where R = "router_sim r s0", OF _ assms(2)])
  fix p q i
  assume "router_sim r s0 p q"
  then show "router_sim r s0 (foldl (settle_pair ms i) p [i + 1 ..< n])
     (foldl (settle_pair_store ms r i) q [i + 1 ..< n])"
    by (rule fold_sim [where R = "router_sim r s0", rotated]) (rule router_sim_pair [OF assms(1)])
qed

lemma router_store:
  assumes "cells s r = Some (Ledger obj)"
  shows "fst (calculateSettlements_router_store s r) = calculateSettlements_router obj
       \<and> kept s (snd (calculateSettlements_router_store s r))"
proof -
  let ?s1 = "snd (alloc s (Ledger obj))"
  let ?n = "length (map fst obj)"
  have init: "router_sim (fresh s) s (obj, []) (?s1, [])"
    by (simp add: router_sim_def alloc_ref kept_alloc)
  note sim = router_sim_all [OF order_refl init, of "map fst obj" ?n "[0 ..< ?n]"]
  obtain s2 ss where f: "foldl (\<lambda>st i. foldl (settle_pair_store (map fst obj) (fresh s) i) st [i + 1 ..< ?n])
                   (?s1, []) [0 ..< ?n] = (s2, ss)" by (cases "foldl (\<lambda>st i. foldl (settle_pair_store (map fst obj) (fresh s) i) st [i + 1 ..< ?n])
                   (?s1, []) [0 ..< ?n]") auto
  obtain bc ss0 where g: "settle_all obj = (bc, ss0)" by (cases "settle_all obj") auto
  from sim f g have "ss = ss0" "kept s s2"
    by (auto simp: router_sim_def settle_all_def Let_def)
  moreover have "calculateSettlements_router_store s r = (ss, s2)"
    using assms f by (simp add: calculateSettlements_router_store_def Let_def alloc_def split: prod.splits)
  ultimately show ?thesis using g by (simp add: calculateSettlements_router_def)
qed

lemma server_sim_classify:
  assumes "fresh s0 \<le> d" and "fresh s0 \<le> c" and "d \<noteq> c" and "server_sim d c s0 pure s"
  shows "server_sim d c s0 (classify pure entry) (classify_store d c s entry)"
  using assms
  by (cases pure; cases entry)
     (auto simp: server_sim_def classify_def classify_store_def push_party_def kept_put,
      simp_all add: put_def)

lemma server_store:
  assumes "cells s r = Some (Ledger obj)"
  shows "fst (calculateSettlements_server_store s r) = calculateSettlements_server obj
       \<and> kept s (snd (calculateSettlements_server_store s r))"
proof -
  let ?d = "fresh s" and ?c = "Suc (fresh s)"
  let ?s1 = "snd (alloc s (Parties []))"
  let ?s2 = "snd (alloc ?s1 (Parties []))"
  let ?s3 = "foldl (classify_store ?d ?c) ?s2 obj"
  have init: "server_sim ?d ?c s ([], []) ?s2"
    by (simp add: server_sim_def) (simp add: alloc_def kept_def)
  have "server_sim ?d ?c s (foldl classify ([], []) obj) ?s3"
    by (rule fold_sim [where R = "server_sim ?d ?c s", OF _ init])
       (rule server_sim_classify, simp_all)
  then have c3: "cells ?s3 ?d = Some (Parties (debtors_of obj))"
    "cells ?s3 ?c = Some (Parties (creditors_of obj))" "kept s ?s3"
    by (simp_all add: server_sim_def foldl_classify)
  obtain ds' cs' i j ss where l: "settle_loop (debtors_of obj, creditors_of obj, 0, 0, []) = (ds', cs', i, j, ss)"
    by (cases "settle_loop (debtors_of obj, creditors_of obj, 0, 0, [])") auto
  have "calculateSettlements_server_store s r =
      (ss, put (put ?s3 ?d (Parties ds')) ?c (Parties cs'))"
    using assms c3(1,2) l
    by (simp add: calculateSettlements_server_store_def Let_def alloc_def split: prod.splits)
  moreover have "kept s (put (put ?s3 ?d (Parties ds')) ?c (Parties cs'))"
    using c3(3) by (simp add: kept_put)
  moreover have "calculateSettlements_server obj = ss"
    using l by (simp add: calculateSettlements_server_eq)
  ultimately show ?thesis by simp
qed

text \<open>
  C10.  Called with the reference of a balance map, each planner returns the settlements
  computed from that map and leaves the map as it was: every key maps to the same value
  after the call.  No object that existed before the call is changed; the router's planner
  assigns to its copy only, the server's to its two new arrays.
\<close>

theorem input_balances_unchanged:
  assumes "cells s r = Some (Ledger obj)" and "r < fresh s"
  shows "cells (snd (calculateSettlements_server_store s r)) r = Some (Ledger obj)
       \<and> fst (calculateSettlements_server_store s r) = calculateSettlements_server obj
       \<and> cells (snd (calculateSettlements_router_store s r)) r = Some (Ledger obj)
       \<and> fst (calculateSettlements_router_store s r) = calculateSettlements_router obj
       \<and> (\<forall>r' < fresh s.
            cells (snd (calculateSettlements_server_store s r)) r' = cells s r' \<and>
            cells (snd (calculateSettlements_router_store s r)) r' = cells s r')"
  using server_store [OF assms(1)] router_store [OF assms(1)] assms
  by (auto simp: kept_def)

theorem input_balances_unchanged_witness:
  "cells (snd (calculateSettlements_server_store one_ledger_store 0)) 0
     = Some (Ledger [(''A'', 60), (''B'', - 30), (''C'', - 30)])
   \<and> cells (snd (calculateSettlements_router_store one_ledger_store 0)) 0
     = Some (Ledger [(''A'', 60), (''B'', - 30), (''C'', - 30)])
   \<and> fst (calculateSettlements_router_store one_ledger_store 0)
     = calculateSettlements_router [(''A'', 60), (''B'', - 30), (''C'', - 30)]"
proof -
  have c: "cells one_ledger_store 0 = Some (Ledger [(''A'', 60), (''B'', - 30), (''C'', - 30)])"
    and f: "0 < fresh one_ledger_store"
    by (simp_all add: one_ledger_store_def)
  from input_balances_unchanged [OF c f] show ?thesis by blast
qed

text \<open>The router's planner does assign: the copy it allocated ends settled.\<close>

lemma router_store_example:
  "cells (snd (calculateSettlements_router_store one_ledger_store 0)) 1 = Some (Ledger [(''A'', 0), (''B'', 0), (''C'', 0)])"
  by (simp add: calculateSettlements_router_store_def one_ledger_store_def alloc_def Let_def
   settle_pair_store_def settle_pair_def put_def adjust_def upt_rec)

end
